theory Spec2Isabelle
  imports Main "HOL-Library.AList"
begin

section \<open>The built-in \<open>Map\<close> of the host language\<close>

text \<open>
  \<open>ReversibleKeyMap.ts\<close> keeps all its data in ECMAScript \<open>Map\<close> objects. A \<open>Map\<close>
  iterates in insertion order, \<open>set\<close> on a key that is present replaces the value and
  keeps the position, \<open>set\<close> on a new key appends, \<open>delete\<close> removes the entry. So a
  \<open>Map\<close> is an association list in insertion order; a list that really is a \<open>Map\<close>
  has no key twice. Keys are compared with HOL equality.
\<close>

type_synonym ('k, 'v) js_map = "('k \<times> 'v) list"

definition Map_has :: "('k, 'v) js_map \<Rightarrow> 'k \<Rightarrow> bool" where
  "Map_has m k = (map_of m k \<noteq> None)"

definition Map_get :: "('k, 'v) js_map \<Rightarrow> 'k \<Rightarrow> 'v option" where
  "Map_get m k = map_of m k"

definition Map_set :: "'k \<Rightarrow> 'v \<Rightarrow> ('k, 'v) js_map \<Rightarrow> ('k, 'v) js_map" where
  "Map_set k v m = AList.update k v m"

definition Map_delete :: "'k \<Rightarrow> ('k, 'v) js_map \<Rightarrow> ('k, 'v) js_map" where
  "Map_delete k m = AList.delete k m"

definition Map_size :: "('k, 'v) js_map \<Rightarrow> nat" where
  "Map_size m = length m"

section \<open>The class \<open>ReversibleKeyMap\<close>\<close>

text \<open>
  The only field is \<open>map: Map<K1 | K2, Map<K1 | K2, T>>\<close>. The two key types are one
  type \<open>'k\<close> here, as they are at run time. Every secondary \<open>Map\<close> is created by
  \<open>new Map\<close> inside \<open>set\<close> and stored under exactly one top-level key, so no two
  top-level entries share an object and the nested list has the sharing of the heap.
  A mutation in place of a secondary map is an update of its top-level entry, which
  keeps the entry's position.
\<close>

type_synonym ('k, 't) rkm = "('k, ('k, 't) js_map) js_map"

text \<open>
  A method call on \<open>undefined\<close> raises \<open>TypeError\<close>. The object outlives the exception,
  so a raising call hands back the state it left behind.
\<close>

datatype error = TypeError

type_synonym ('k, 't) outcome = "(error \<times> ('k, 't) rkm) + ('k, 't) rkm"

fun state_of :: "('k, 't) outcome \<Rightarrow> ('k, 't) rkm" where
  "state_of (Inl (e, m)) = m"
| "state_of (Inr m) = m"

fun throws :: "('k, 't) outcome \<Rightarrow> bool" where
  "throws (Inl x) = True"
| "throws (Inr m) = False"

definition getAllFrom :: "('k, 't) rkm \<Rightarrow> 'k \<Rightarrow> ('k, 't) js_map option" where
  "getAllFrom m k1 = Map_get m k1"

text \<open>\<open>this.map.has(k1) ? this.map.get(k1).get(k2) : undefined\<close>; the absent
  indicator \<open>undefined\<close> is \<open>None\<close>.\<close>

definition get :: "('k, 't) rkm \<Rightarrow> 'k \<Rightarrow> 'k \<Rightarrow> 't option" where
  "get m k1 k2 =
     (if Map_has m k1
      then (case Map_get m k1 of None \<Rightarrow> None | Some k1map \<Rightarrow> Map_get k1map k2)
      else None)"

text \<open>
  \<open>set\<close>, \<open>has\<close>, \<open>hasCouple\<close> and \<open>clear\<close>. In \<open>set\<close> the second test reads \<open>this.map\<close>
  after the first branch has written it, which is what makes \<open>set(a, a, v)\<close> store one
  entry.
\<close>

definition set_rkm :: "('k, 't) rkm \<Rightarrow> 'k \<Rightarrow> 'k \<Rightarrow> 't \<Rightarrow> ('k, 't) rkm" where
  "set_rkm m k1 k2 v =
     (let m1 = (case Map_get m k1 of
                  Some k1map \<Rightarrow> Map_set k1 (Map_set k2 v k1map) m
                | None \<Rightarrow> Map_set k1 [(k2, v)] m)
      in (case Map_get m1 k2 of
            Some k2map \<Rightarrow> Map_set k2 (Map_set k1 v k2map) m1
          | None \<Rightarrow> Map_set k2 [(k1, v)] m1))"

definition has :: "('k, 't) rkm \<Rightarrow> 'k \<Rightarrow> bool" where
  "has m k1 = Map_has m k1"

definition hasCouple :: "('k, 't) rkm \<Rightarrow> 'k \<Rightarrow> 'k \<Rightarrow> bool" where
  "hasCouple m k1 k2 =
     (if Map_has m k1
      then (case Map_get m k1 of None \<Rightarrow> False | Some k1map \<Rightarrow> Map_has k1map k2)
      else False)"

definition clear :: "('k, 't) rkm \<Rightarrow> ('k, 't) rkm" where
  "clear m = []"

text \<open>
  \<open>delete\<close>: \<open>k1map\<close> and \<open>k2map\<close> are read from \<open>this.map\<close> one after the other, the
  second after \<open>this.map.delete(k1)\<close> may have run. \<open>this.map.get\<close> of an absent key
  is \<open>undefined\<close>, and \<open>.delete\<close> on it raises.
\<close>

definition delete :: "('k, 't) rkm \<Rightarrow> 'k \<Rightarrow> 'k \<Rightarrow> ('k, 't) outcome" where
  "delete m k1 k2 =
     (if hasCouple m k1 k2 then
        (case Map_get m k1 of
           None \<Rightarrow> Inl (TypeError, m)
         | Some k1map \<Rightarrow>
             let k1map' = Map_delete k2 k1map;
                 m1 = Map_set k1 k1map' m;
                 m2 = (if Map_size k1map' = 0 then Map_delete k1 m1 else m1)
             in (case Map_get m2 k2 of
                   None \<Rightarrow> Inl (TypeError, m2)
                 | Some k2map \<Rightarrow>
                     let k2map' = Map_delete k1 k2map;
                         m3 = Map_set k2 k2map' m2;
                         m4 = (if Map_size k2map' = 0 then Map_delete k2 m3 else m3)
                     in Inr m4))
      else Inr m)"

text \<open>
  \<open>deleteAllFrom\<close> runs \<open>for (const [key, ] of this.getAllFrom(k1))\<close> over the live
  secondary map of \<open>k1\<close>, which the body's \<open>delete\<close> shrinks. A \<open>Map\<close> iterator visits
  the entries in insertion order and passes over an entry removed before it is
  reached; nothing is added during the loop. So the loop walks the keys present at
  its start and visits a key when it is still in the secondary map of \<open>k1\<close>. That map
  leaves \<open>this.map\<close> only once it is empty, so the test is \<open>hasCouple\<close>.
\<close>

fun deleteAllFrom_loop :: "'k \<Rightarrow> 'k list \<Rightarrow> ('k, 't) rkm \<Rightarrow> ('k, 't) outcome" where
  "deleteAllFrom_loop k1 [] m = Inr m"
| "deleteAllFrom_loop k1 (key # pending) m =
     (if hasCouple m k1 key then
        (case delete m k1 key of
           Inl e \<Rightarrow> Inl e
         | Inr m' \<Rightarrow> deleteAllFrom_loop k1 pending m')
      else deleteAllFrom_loop k1 pending m)"

definition deleteAllFrom :: "('k, 't) rkm \<Rightarrow> 'k \<Rightarrow> ('k, 't) outcome" where
  "deleteAllFrom m k1 =
     (if has m k1 then
        (case getAllFrom m k1 of
           None \<Rightarrow> Inl (TypeError, m)
         | Some k1map \<Rightarrow> deleteAllFrom_loop k1 (map fst k1map) m)
      else Inr m)"

text \<open>
  \<open>entries\<close> is a generator; draining it, with no mutation in between, gives the
  list of the items it yields.
  \<open>couples\<close> is a \<open>Map<K, Set<K>>\<close> of which only \<open>has\<close>, \<open>get\<close> and \<open>set\<close> are used,
  so its order does not matter. \<open>k1set\<close> is the \<open>Set\<close> stored under \<open>key1\<close>, which is
  never replaced, so reading it is reading \<open>couples\<close> at \<open>key1\<close>, and \<open>add\<close> on it
  updates that entry (also when \<open>key2\<close> is \<open>key1\<close> and both names denote one object).
\<close>

type_synonym 'k couples = "'k \<rightharpoonup> 'k set"

fun entries_inner ::
  "'k \<Rightarrow> ('k, 't) js_map \<Rightarrow> 'k couples \<Rightarrow> error + ('k couples \<times> (('k \<times> 'k) \<times> 't) list)" where
  "entries_inner key1 [] couples = Inr (couples, [])"
| "entries_inner key1 ((key2, v) # rest) couples =
     (let couples1 = (if couples key2 = None then couples(key2 \<mapsto> {}) else couples)
      in (case couples1 key1 of
            None \<Rightarrow> Inl TypeError
          | Some k1set \<Rightarrow>
              let yielded = (if key2 \<notin> k1set then [((key1, key2), v)] else []);
                  couples2 = couples1(key1 \<mapsto> insert key2 k1set)
              in (case couples2 key2 of
                    None \<Rightarrow> Inl TypeError
                  | Some k2set \<Rightarrow>
                      (case entries_inner key1 rest (couples2(key2 \<mapsto> insert key1 k2set)) of
                         Inl e \<Rightarrow> Inl e
                       | Inr (couples', out) \<Rightarrow> Inr (couples', yielded @ out)))))"

fun entries_outer ::
  "('k, 't) rkm \<Rightarrow> 'k couples \<Rightarrow> error + ('k couples \<times> (('k \<times> 'k) \<times> 't) list)" where
  "entries_outer [] couples = Inr (couples, [])"
| "entries_outer ((key1, k1map) # rest) couples =
     (let couples1 = (if couples key1 = None then couples(key1 \<mapsto> {}) else couples)
      in (case entries_inner key1 k1map couples1 of
            Inl e \<Rightarrow> Inl e
          | Inr (couples2, out1) \<Rightarrow>
              (case entries_outer rest couples2 of
                 Inl e \<Rightarrow> Inl e
               | Inr (couples3, out2) \<Rightarrow> Inr (couples3, out1 @ out2))))"

definition entries :: "('k, 't) rkm \<Rightarrow> error + (('k \<times> 'k) \<times> 't) list" where
  "entries m = (case entries_outer m Map.empty of Inl e \<Rightarrow> Inl e | Inr (couples, out) \<Rightarrow> Inr out)"

definition keys :: "('k, 't) rkm \<Rightarrow> 'k list" where
  "keys m = map fst m"

definition keysCouples :: "('k, 't) rkm \<Rightarrow> error + ('k \<times> 'k) list" where
  "keysCouples m = (case entries m of Inl e \<Rightarrow> Inl e | Inr out \<Rightarrow> Inr (map fst out))"

definition values_rkm :: "('k, 't) rkm \<Rightarrow> error + 't list" where
  "values_rkm m = (case entries m of Inl e \<Rightarrow> Inl e | Inr out \<Rightarrow> Inr (map snd out))"

definition size_rkm :: "('k, 't) rkm \<Rightarrow> nat" where
  "size_rkm m = Map_size m"

definition count :: "('k, 't) rkm \<Rightarrow> error + nat" where
  "count m = (case values_rkm m of Inl e \<Rightarrow> Inl e | Inr vs \<Rightarrow> Inr (length vs))"

text \<open>
  The constructor: \<open>for (const [keys, value] of it) this.set(keys[0], keys[1], value)\<close>
  on the empty map; without an argument the list is empty.
\<close>

definition new_rkm :: "(('k \<times> 'k) \<times> 't) list \<Rightarrow> ('k, 't) rkm" where
  "new_rkm it = foldl (\<lambda>m ((k1, k2), v). set_rkm m k1 k2 v) [] it"

text \<open>
  The two halves of \<open>delete\<close> do the same to \<open>(k1, k2)\<close> and to \<open>(k2, k1)\<close>: drop \<open>y\<close>
  from the secondary map of \<open>x\<close>, and \<open>x\<close> from \<open>this.map\<close> when nothing is left. The
  proofs name that step.
\<close>

definition drop_half :: "('k, 't) rkm \<Rightarrow> 'k \<Rightarrow> 'k \<Rightarrow> ('k, 't) js_map \<Rightarrow> ('k, 't) rkm" where
  "drop_half m x y xmap =
     (if Map_size (Map_delete y xmap) = 0
      then Map_delete x (Map_set x (Map_delete y xmap) m)
      else Map_set x (Map_delete y xmap) m)"

text \<open>
  The states a caller can bring the container into: the constructor starts from the
  empty map and then only calls \<open>set\<close>; every mutator may follow, and a call that
  raised leaves the state it had reached. A write through the \<open>Map\<close> that
  \<open>getAllFrom\<close> hands out is not a method of the class and is not a step here.
\<close>

inductive reachable :: "('k, 't) rkm \<Rightarrow> bool" where
  r_new: "reachable []"
| r_set: "reachable m \<Longrightarrow> reachable (set_rkm m k1 k2 v)"
| r_delete: "reachable m \<Longrightarrow> reachable (state_of (delete m k1 k2))"
| r_deleteAllFrom: "reachable m \<Longrightarrow> reachable (state_of (deleteAllFrom m k1))"
| r_clear: "reachable m \<Longrightarrow> reachable (clear m)"

section \<open>Invariants and the pure form of the traversal\<close>

text \<open>
  What makes the nested list a picture of real \<open>Map\<close> objects: no key twice at either
  level. With it goes the second invariant of the class: no secondary map is empty.
\<close>

definition map_inv :: "('k, 't) rkm \<Rightarrow> bool" where
  "map_inv m \<longleftrightarrow>
     distinct (map fst m) \<and> (\<forall>(k, kmap) \<in> set m. distinct (map fst kmap) \<and> kmap \<noteq> [])"

text \<open>The first invariant of the class: both key orders hold the same value.\<close>

definition symmetric :: "('k, 't) rkm \<Rightarrow> bool" where
  "symmetric m \<longleftrightarrow> (\<forall>a b. get m a b = get m b a)"

text \<open>
  For the proofs about \<open>entries\<close>: the ordered pairs that \<open>couples\<close> records, the
  entries of both levels in the order the two loops meet them, the yield test stated
  over recorded pairs, and the unordered pair of a yielded item.
\<close>

definition seen :: "'k couples \<Rightarrow> ('k \<times> 'k) set" where
  "seen c = {(a, b). \<exists>S. c a = Some S \<and> b \<in> S}"

definition directed :: "('k, 't) rkm \<Rightarrow> ('k \<times> 'k \<times> 't) list" where
  "directed m = concat (map (\<lambda>(k1, k1map). map (\<lambda>(k2, v). (k1, k2, v)) k1map) m)"

fun dedup :: "('k \<times> 'k) set \<Rightarrow> ('k \<times> 'k \<times> 't) list \<Rightarrow> (('k \<times> 'k) \<times> 't) list" where
  "dedup S [] = []"
| "dedup S ((a, b, v) # ds) =
     (if (a, b) \<in> S then [] else [((a, b), v)]) @ dedup (insert (a, b) (insert (b, a) S)) ds"

definition both_ways :: "('k \<times> 'k \<times> 't) list \<Rightarrow> ('k \<times> 'k) set" where
  "both_ways ds = (\<Union>(a, b, v) \<in> set ds. {(a, b), (b, a)})"

definition upair :: "('k \<times> 'k) \<times> 't \<Rightarrow> 'k set" where
  "upair e = {fst (fst e), snd (fst e)}"

text \<open>
  The specification's wording of \<open>deleteAllFrom\<close>, to compare with the loop of the
  source: take the co-keys of \<open>k1\<close> as they are before anything is removed, then call
  \<open>delete(k1, key)\<close> for each of them; nothing to do when \<open>k1\<close> is unknown.
\<close>

fun deleteAllFrom_snapshot_loop :: "'k \<Rightarrow> 'k list \<Rightarrow> ('k, 't) rkm \<Rightarrow> ('k, 't) outcome" where
  "deleteAllFrom_snapshot_loop k1 [] m = Inr m"
| "deleteAllFrom_snapshot_loop k1 (key # pending) m =
     (case delete m k1 key of
        Inl e \<Rightarrow> Inl e
      | Inr m' \<Rightarrow> deleteAllFrom_snapshot_loop k1 pending m')"

definition deleteAllFrom_snapshot :: "('k, 't) rkm \<Rightarrow> 'k \<Rightarrow> ('k, 't) outcome" where
  "deleteAllFrom_snapshot m k1 =
     (case getAllFrom m k1 of
        None \<Rightarrow> Inr m
      | Some k1map \<Rightarrow> deleteAllFrom_snapshot_loop k1 (map fst k1map) m)"

section \<open>What \<open>get\<close> sees after \<open>set\<close> and \<open>delete\<close>\<close>

lemmas Map_defs = Map_has_def Map_get_def Map_set_def Map_delete_def Map_size_def

lemma get_conv: "get m a b = (case map_of m a of None \<Rightarrow> None | Some k1map \<Rightarrow> map_of k1map b)"
  by (simp add: get_def Map_defs split: option.splits)

lemma hasCouple_conv: "hasCouple m a b \<longleftrightarrow> get m a b \<noteq> None"
  by (simp add: hasCouple_def get_conv Map_defs split: option.splits)

lemma has_conv: "has m a \<longleftrightarrow> map_of m a \<noteq> None"
  by (simp add: has_def Map_defs)

lemma get_set_rkm:
  "get (set_rkm m k1 k2 v) a b =
     (if (a = k1 \<and> b = k2) \<or> (a = k2 \<and> b = k1) then Some v else get m a b)"
  by (auto simp add: set_rkm_def get_conv Map_defs Let_def update_conv' split: option.splits)

lemma delete_Nil_map_of: "AList.delete k al = [] \<Longrightarrow> b \<noteq> k \<Longrightarrow> map_of al b = None"
  using map_of_delete [of b k al] by simp

lemma delete_unfold:
  "delete m k1 k2 =
     (if hasCouple m k1 k2 then
        (case Map_get m k1 of
           None \<Rightarrow> Inl (TypeError, m)
         | Some k1map \<Rightarrow>
             (case Map_get (drop_half m k1 k2 k1map) k2 of
                None \<Rightarrow> Inl (TypeError, drop_half m k1 k2 k1map)
              | Some k2map \<Rightarrow> Inr (drop_half (drop_half m k1 k2 k1map) k2 k1 k2map)))
      else Inr m)"
  unfolding delete_def drop_half_def Let_def by (rule refl)

lemma get_drop_half:
  assumes "map_of m x = Some xmap"
  shows "get (drop_half m x y xmap) a b = (if a = x \<and> b = y then None else get m a b)"
proof (cases "a = x")
  case False
  then show ?thesis
    by (simp add: drop_half_def get_conv Map_defs update_conv' delete_conv')
next
  case True
  show ?thesis
  proof (cases "AList.delete y xmap = []")
    case True
    with \<open>a = x\<close> assms show ?thesis
      by (auto simp add: drop_half_def get_conv Map_defs delete_conv' delete_Nil_map_of)
  next
    case False
    with \<open>a = x\<close> assms show ?thesis
      by (simp add: drop_half_def get_conv Map_defs update_conv' delete_conv')
  qed
qed

lemma get_delete:
  "get (state_of (delete m k1 k2)) a b =
     (if hasCouple m k1 k2 \<and> ((a = k1 \<and> b = k2) \<or> (a = k2 \<and> b = k1)) then None else get m a b)"
proof (cases "hasCouple m k1 k2")
  case False
  then show ?thesis by (simp add: delete_unfold)
next
  case True
  then obtain k1map where k1map: "map_of m k1 = Some k1map"
    by (auto simp add: hasCouple_def Map_defs split: option.splits)
  define m2 where "m2 = drop_half m k1 k2 k1map"
  have g2: "get m2 a b = (if a = k1 \<and> b = k2 then None else get m a b)" for a b
    unfolding m2_def by (rule get_drop_half [OF k1map])
  show ?thesis
  proof (cases "map_of m2 k2")
    case None
    with True k1map have st: "state_of (delete m k1 k2) = m2"
      by (simp add: delete_unfold Map_get_def m2_def)
    from None have n: "get m2 k2 k1 = None"
      by (simp add: get_conv)
    from n True show ?thesis
      unfolding st by (cases "a = k2"; cases "b = k1") (auto simp add: g2)
  next
    case (Some k2map)
    with True k1map have st: "state_of (delete m k1 k2) = drop_half m2 k2 k1 k2map"
      by (simp add: delete_unfold Map_get_def m2_def)
    from True show ?thesis
      unfolding st get_drop_half [OF Some] g2
      by (cases "a = k2"; cases "b = k1") auto
  qed
qed


section \<open>The invariants hold in every reachable state\<close>

lemma set_update_subset: "set (AList.update k v al) \<subseteq> insert (k, v) (set al)"
  by (induction al) auto

lemma set_delete_subset: "set (AList.delete k al) \<subseteq> set al"
  by (auto simp add: AList.delete_eq)

lemma map_inv_update:
  assumes "map_inv m" "distinct (map fst v)" "v \<noteq> []"
  shows "map_inv (AList.update k v m)"
  using assms set_update_subset [of k v m]
  unfolding map_inv_def by (auto simp add: distinct_update)

lemma map_inv_delete:
  assumes "map_inv m"
  shows "map_inv (AList.delete k m)"
  using assms set_delete_subset [of k m]
  unfolding map_inv_def by (auto simp add: distinct_delete)

lemma map_inv_lookup:
  assumes "map_inv m" "map_of m k = Some kmap"
  shows "distinct (map fst kmap) \<and> kmap \<noteq> []"
proof -
  from assms(2) have "(k, kmap) \<in> set m" by (rule map_of_SomeD)
  with assms(1) show ?thesis by (auto simp add: map_inv_def)
qed

lemma map_inv_set_half:
  assumes "map_inv m"
  shows "map_inv (case Map_get m x of
                    Some xmap \<Rightarrow> Map_set x (Map_set y v xmap) m
                  | None \<Rightarrow> Map_set x [(y, v)] m)"
proof (cases "map_of m x")
  case None
  then show ?thesis
    using map_inv_update [OF assms, of "[(y, v)]" x] by (simp add: Map_defs)
next
  case (Some xmap)
  with assms have "distinct (map fst xmap)" by (simp add: map_inv_lookup)
  then have "distinct (map fst (AList.update y v xmap))" by (rule distinct_update)
  with Some show ?thesis
    using map_inv_update [OF assms, of "AList.update y v xmap" x] by (simp add: Map_defs)
qed

lemma map_inv_set_rkm:
  assumes "map_inv m"
  shows "map_inv (set_rkm m k1 k2 v)"
  unfolding set_rkm_def Let_def
  by (intro map_inv_set_half assms)

lemma map_inv_drop_half:
  assumes "map_inv m" "map_of m x = Some xmap"
  shows "map_inv (drop_half m x y xmap)"
proof (cases "AList.delete y xmap = []")
  case True
  have "AList.delete x (AList.update x [] m) = AList.delete x m"
    by (rule delete_update_same)
  with True show ?thesis
    using map_inv_delete [OF assms(1), of x] by (simp add: drop_half_def Map_defs)
next
  case False
  from assms have "distinct (map fst xmap)" by (simp add: map_inv_lookup)
  then have "distinct (map fst (AList.delete y xmap))" by (rule distinct_delete)
  with False show ?thesis
    using map_inv_update [OF assms(1), of "AList.delete y xmap" x] by (simp add: drop_half_def Map_defs)
qed

lemma delete_cases:
  obtains (absent) "\<not> hasCouple m k1 k2" "delete m k1 k2 = Inr m"
  | (raised) k1map where "hasCouple m k1 k2" "map_of m k1 = Some k1map"
      "map_of (drop_half m k1 k2 k1map) k2 = None"
      "delete m k1 k2 = Inl (TypeError, drop_half m k1 k2 k1map)"
  | (removed) k1map k2map where "hasCouple m k1 k2" "map_of m k1 = Some k1map"
      "map_of (drop_half m k1 k2 k1map) k2 = Some k2map"
      "delete m k1 k2 = Inr (drop_half (drop_half m k1 k2 k1map) k2 k1 k2map)"
proof (cases "hasCouple m k1 k2")
  case False
  then show ?thesis using absent by (simp add: delete_unfold)
next
  case True
  then obtain k1map where k1map: "map_of m k1 = Some k1map"
    by (auto simp add: hasCouple_def Map_defs split: option.splits)
  show ?thesis
  proof (cases "map_of (drop_half m k1 k2 k1map) k2")
    case None
    with True k1map show ?thesis using raised by (simp add: delete_unfold Map_get_def)
  next
    case (Some k2map)
    with True k1map show ?thesis using removed by (simp add: delete_unfold Map_get_def)
  qed
qed

lemma map_inv_delete_rkm:
  assumes "map_inv m"
  shows "map_inv (state_of (delete m k1 k2))"
proof (cases rule: delete_cases [of m k1 k2])
  case absent
  with assms show ?thesis by simp
next
  case (raised k1map)
  with assms show ?thesis by (simp add: map_inv_drop_half)
next
  case (removed k1map k2map)
  with assms show ?thesis by (simp add: map_inv_drop_half)
qed

lemma symmetric_set_rkm:
  assumes "symmetric m"
  shows "symmetric (set_rkm m k1 k2 v)"
  unfolding symmetric_def
proof (intro allI)
  fix a b
  from assms have "get m a b = get m b a" by (simp add: symmetric_def)
  then show "get (set_rkm m k1 k2 v) a b = get (set_rkm m k1 k2 v) b a"
    unfolding get_set_rkm
    by (cases "a = k1"; cases "b = k2"; cases "a = k2"; cases "b = k1") auto
qed

lemma symmetric_delete_rkm:
  assumes "symmetric m"
  shows "symmetric (state_of (delete m k1 k2))"
  unfolding symmetric_def
proof (intro allI)
  fix a b
  from assms have "get m a b = get m b a" by (simp add: symmetric_def)
  then show "get (state_of (delete m k1 k2)) a b = get (state_of (delete m k1 k2)) b a"
    unfolding get_delete
    by (cases "a = k1"; cases "b = k2"; cases "a = k2"; cases "b = k1") auto
qed

lemma deleteAllFrom_loop_preserves:
  assumes step: "\<And>m k2. P m \<Longrightarrow> P (state_of (delete m k1 k2))"
  shows "P m \<Longrightarrow> P (state_of (deleteAllFrom_loop k1 ks m))"
proof (induction ks arbitrary: m)
  case Nil
  then show ?case by simp
next
  case (Cons key pending)
  show ?case
  proof (cases "hasCouple m k1 key")
    case False
    with Cons show ?thesis by simp
  next
    case True
    show ?thesis
    proof (cases "delete m k1 key")
      case (Inl e)
      with step [OF Cons.prems, of key] True show ?thesis by simp
    next
      case (Inr m')
      with step [OF Cons.prems, of key] have "P m'" by simp
      with Cons.IH Inr True show ?thesis by simp
    qed
  qed
qed

lemma deleteAllFrom_preserves:
  assumes step: "\<And>m k2. P m \<Longrightarrow> P (state_of (delete m k1 k2))" and "P m"
  shows "P (state_of (deleteAllFrom m k1))"
  using deleteAllFrom_loop_preserves [of P k1, OF step \<open>P m\<close>] \<open>P m\<close>
  by (simp add: deleteAllFrom_def split: option.splits)

lemma reachable_new_rkm: "reachable (new_rkm it)"
proof -
  have "reachable m \<Longrightarrow> reachable (foldl (\<lambda>m ((k1, k2), v). set_rkm m k1 k2 v) m it)" for m
  proof (induction it arbitrary: m)
    case Nil
    then show ?case by simp
  next
    case (Cons x it)
    obtain k1 k2 v where x: "x = ((k1, k2), v)" by (cases x) auto
    from Cons.prems have "reachable (set_rkm m k1 k2 v)" by (rule r_set)
    from Cons.IH [OF this] show ?case by (simp add: x)
  qed
  from this [OF r_new] show ?thesis by (simp add: new_rkm_def)
qed

lemma reachable_inv:
  assumes "reachable m"
  shows "map_inv m \<and> symmetric m"
  using assms
proof (induction rule: reachable.induct)
  case r_new
  show ?case by (simp add: map_inv_def symmetric_def get_conv)
next
  case (r_set m k1 k2 v)
  then show ?case by (simp add: map_inv_set_rkm symmetric_set_rkm)
next
  case (r_delete m k1 k2)
  then show ?case by (simp add: map_inv_delete_rkm symmetric_delete_rkm)
next
  case (r_deleteAllFrom m k1)
  then have "map_inv (state_of (deleteAllFrom m k1))" "symmetric (state_of (deleteAllFrom m k1))"
    by (auto intro: deleteAllFrom_preserves map_inv_delete_rkm symmetric_delete_rkm)
  then show ?case by simp
next
  case (r_clear m)
  show ?case by (simp add: clear_def map_inv_def symmetric_def get_conv)
qed

section \<open>\<open>entries\<close> is a filter of the directed entries\<close>

lemma seen_new: "c k = None \<Longrightarrow> seen (c(k \<mapsto> {})) = seen c"
  by (auto simp add: seen_def split: if_splits)

lemma seen_add: "c k = Some S \<Longrightarrow> seen (c(k \<mapsto> insert x S)) = insert (k, x) (seen c)"
  by (auto simp add: seen_def split: if_splits)

lemma both_ways_simps:
  "both_ways [] = {}"
  "both_ways ((a, b, v) # ds) = insert (a, b) (insert (b, a) (both_ways ds))"
  by (auto simp add: both_ways_def)

lemma both_ways_append: "both_ways (xs @ ys) = both_ways xs \<union> both_ways ys"
  by (auto simp add: both_ways_def)

lemma dedup_append: "dedup S (xs @ ys) = dedup S xs @ dedup (S \<union> both_ways xs) ys"
proof (induction xs arbitrary: S)
  case Nil
  show ?case by (simp add: both_ways_simps)
next
  case (Cons d xs)
  obtain a b v where d: "d = (a, b, v)" by (cases d)
  have "insert (a, b) (insert (b, a) S) \<union> both_ways xs = S \<union> both_ways ((a, b, v) # xs)"
    by (auto simp add: both_ways_simps)
  with Cons.IH [of "insert (a, b) (insert (b, a) S)"] show ?case
    by (simp add: d)
qed

lemma entries_inner_dedup:
  assumes "c key1 \<noteq> None"
  shows "\<exists>c'. entries_inner key1 k1map c =
               Inr (c', dedup (seen c) (map (\<lambda>(k2, v). (key1, k2, v)) k1map)) \<and>
              seen c' = seen c \<union> both_ways (map (\<lambda>(k2, v). (key1, k2, v)) k1map) \<and>
              (\<forall>k. c k \<noteq> None \<longrightarrow> c' k \<noteq> None)"
  using assms
proof (induction k1map arbitrary: c)
  case Nil
  show ?case by (simp add: both_ways_simps)
next
  case (Cons e rest)
  obtain key2 v where e: "e = (key2, v)" by (cases e)
  define c1 where "c1 = (if c key2 = None then c(key2 \<mapsto> {}) else c)"
  from Cons.prems have "c1 key1 \<noteq> None" by (simp add: c1_def)
  then obtain k1set where k1set: "c1 key1 = Some k1set" by blast
  have s1: "seen c1 = seen c" by (simp add: c1_def seen_new)
  define c2 where "c2 = c1(key1 \<mapsto> insert key2 k1set)"
  have s2: "seen c2 = insert (key1, key2) (seen c)"
    using seen_add [where c = c1 and k = key1 and S = k1set and x = key2, OF k1set] s1 by (simp add: c2_def)
  have "c1 key2 \<noteq> None" by (simp add: c1_def)
  then have "c2 key2 \<noteq> None" by (simp add: c2_def)
  then obtain k2set where k2set: "c2 key2 = Some k2set" by blast
  define c3 where "c3 = c2(key2 \<mapsto> insert key1 k2set)"
  have s3: "seen c3 = insert (key2, key1) (insert (key1, key2) (seen c))"
    using seen_add [where c = c2 and k = key2 and S = k2set and x = key1, OF k2set] s2 by (simp add: c3_def)
  have mono: "c k \<noteq> None \<longrightarrow> c3 k \<noteq> None" for k
    by (simp add: c3_def c2_def c1_def)
  then have "c3 key1 \<noteq> None" using Cons.prems by blast
  from Cons.IH [of c3, OF this] obtain c' where
    r: "entries_inner key1 rest c3 = Inr (c', dedup (seen c3) (map (\<lambda>(k2, v). (key1, k2, v)) rest))"
    and s': "seen c' = seen c3 \<union> both_ways (map (\<lambda>(k2, v). (key1, k2, v)) rest)"
    and mono': "\<forall>k. c3 k \<noteq> None \<longrightarrow> c' k \<noteq> None"
    by blast
  have "((key1, key2) \<in> seen c1) = (key2 \<in> k1set)"
    using k1set by (simp add: seen_def)
  then have y: "(key2 \<notin> k1set) = ((key1, key2) \<notin> seen c)"
    unfolding s1 by simp
  have ins: "insert (key2, key1) (insert (key1, key2) (seen c)) = insert (key1, key2) (insert (key2, key1) (seen c))"
    by auto
  have "entries_inner key1 (e # rest) c =
        Inr (c', dedup (seen c) (map (\<lambda>(k2, v). (key1, k2, v)) (e # rest)))"
    unfolding e using k1set k2set r y
    by (simp add: c1_def [symmetric] c2_def [symmetric] c3_def [symmetric] s3 ins Let_def)
  moreover have "seen c' = seen c \<union> both_ways (map (\<lambda>(k2, v). (key1, k2, v)) (e # rest))"
    unfolding s' s3 e by (auto simp add: both_ways_simps)
  moreover have "\<forall>k. c k \<noteq> None \<longrightarrow> c' k \<noteq> None"
    using mono mono' by blast
  ultimately show ?case by blast
qed

lemma entries_outer_dedup:
  "\<exists>c'. entries_outer m c = Inr (c', dedup (seen c) (directed m)) \<and>
         seen c' = seen c \<union> both_ways (directed m)"
proof (induction m arbitrary: c)
  case Nil
  show ?case by (simp add: directed_def both_ways_simps)
next
  case (Cons e rest)
  obtain key1 k1map where e: "e = (key1, k1map)" by (cases e)
  define c1 where "c1 = (if c key1 = None then c(key1 \<mapsto> {}) else c)"
  have s1: "seen c1 = seen c" by (simp add: c1_def seen_new)
  have "c1 key1 \<noteq> None" by (simp add: c1_def)
  from entries_inner_dedup [where c = c1 and ?key1.0 = key1 and ?k1map.0 = k1map, OF this] obtain c2 where
    i: "entries_inner key1 k1map c1 = Inr (c2, dedup (seen c) (map (\<lambda>(k2, v). (key1, k2, v)) k1map))"
    and s2: "seen c2 = seen c \<union> both_ways (map (\<lambda>(k2, v). (key1, k2, v)) k1map)"
    unfolding s1 by blast
  from Cons.IH [of c2] obtain c3 where
    r: "entries_outer rest c2 = Inr (c3, dedup (seen c2) (directed rest))"
    and s3: "seen c3 = seen c2 \<union> both_ways (directed rest)"
    by blast
  have d: "directed (e # rest) = map (\<lambda>(k2, v). (key1, k2, v)) k1map @ directed rest"
    by (simp add: directed_def e)
  have "entries_outer (e # rest) c = Inr (c3, dedup (seen c) (directed (e # rest)))"
    unfolding e d [unfolded e] dedup_append using i r
    by (simp add: c1_def [symmetric] s2 Let_def)
  moreover have "seen c3 = seen c \<union> both_ways (directed (e # rest))"
    unfolding s3 s2 d both_ways_append by auto
  ultimately show ?case by blast
qed

lemma entries_dedup: "entries m = Inr (dedup {} (directed m))"
proof -
  have "seen Map.empty = ({} :: ('a \<times> 'a) set)" by (simp add: seen_def)
  with entries_outer_dedup [of m Map.empty] show ?thesis
    by (auto simp add: entries_def)
qed

lemma dedup_sound:
  "e \<in> set (dedup S ds) \<Longrightarrow> (fst (fst e), snd (fst e), snd e) \<in> set ds \<and> fst e \<notin> S"
proof (induction ds arbitrary: S)
  case Nil
  then show ?case by simp
next
  case (Cons d ds)
  obtain a b v where d: "d = (a, b, v)" by (cases d)
  from Cons.prems consider
    (head) "(a, b) \<notin> S" "e = ((a, b), v)"
    | (tail) "e \<in> set (dedup (insert (a, b) (insert (b, a) S)) ds)"
    unfolding d by (auto split: if_splits)
  then show ?case
  proof cases
    case head
    then show ?thesis by (simp add: d)
  next
    case tail
    from Cons.IH [OF tail] show ?thesis by simp
  qed
qed

lemma dedup_distinct: "distinct (map upair (dedup S ds))"
proof (induction ds arbitrary: S)
  case Nil
  show ?case by simp
next
  case (Cons d ds)
  obtain a b v where d: "d = (a, b, v)" by (cases d)
  have "upair ((a, b), v) \<notin> upair ` set (dedup (insert (a, b) (insert (b, a) S)) ds)"
  proof
    assume "upair ((a, b), v) \<in> upair ` set (dedup (insert (a, b) (insert (b, a) S)) ds)"
    then obtain e where e: "e \<in> set (dedup (insert (a, b) (insert (b, a) S)) ds)"
      and u: "upair e = upair ((a, b), v)" by auto
    from dedup_sound [OF e] have "fst e \<noteq> (a, b)" "fst e \<noteq> (b, a)" by auto
    moreover from u have "fst e = (a, b) \<or> fst e = (b, a)"
      by (cases e) (auto simp add: upair_def doubleton_eq_iff)
    ultimately show False by blast
  qed
  with Cons.IH [of "insert (a, b) (insert (b, a) S)"] show ?case
    by (simp add: d)
qed

lemma dedup_complete:
  assumes "(a, b, v) \<in> set ds" "(a, b) \<notin> S" "(b, a) \<notin> S"
  shows "\<exists>e \<in> set (dedup S ds). fst e = (a, b) \<or> fst e = (b, a)"
  using assms
proof (induction ds arbitrary: S)
  case Nil
  then show ?case by simp
next
  case (Cons d ds)
  obtain a0 b0 v0 where d: "d = (a0, b0, v0)" by (cases d)
  show ?case
  proof (cases "(a0, b0) = (a, b) \<or> (a0, b0) = (b, a)")
    case True
    with Cons.prems have "(a0, b0) \<notin> S" by auto
    then have "((a0, b0), v0) \<in> set (dedup S (d # ds))" by (simp add: d)
    with True show ?thesis by force
  next
    case False
    with Cons.prems have "(a, b, v) \<in> set ds" by (auto simp add: d)
    moreover from False Cons.prems have "(a, b) \<notin> insert (a0, b0) (insert (b0, a0) S)"
      "(b, a) \<notin> insert (a0, b0) (insert (b0, a0) S)" by auto
    ultimately have "\<exists>e \<in> set (dedup (insert (a0, b0) (insert (b0, a0) S)) ds).
        fst e = (a, b) \<or> fst e = (b, a)"
      by (rule Cons.IH)
    then show ?thesis by (auto simp add: d)
  qed
qed

lemma directed_iff:
  assumes "map_inv m"
  shows "((a, b, v) \<in> set (directed m)) = (get m a b = Some v)"
proof
  assume "(a, b, v) \<in> set (directed m)"
  then obtain amap where 1: "(a, amap) \<in> set m" and 2: "(b, v) \<in> set amap"
    by (auto simp add: directed_def)
  from assms 1 have "map_of m a = Some amap" by (simp add: map_inv_def)
  moreover from assms 1 have "distinct (map fst amap)" by (auto simp add: map_inv_def)
  with 2 have "map_of amap b = Some v" by simp
  ultimately show "get m a b = Some v" by (simp add: get_conv)
next
  assume "get m a b = Some v"
  then obtain amap where 1: "map_of m a = Some amap" and 2: "map_of amap b = Some v"
    by (auto simp add: get_conv split: option.splits)
  from 1 have "(a, amap) \<in> set m" by (rule map_of_SomeD)
  moreover from 2 have "(b, v) \<in> set amap" by (rule map_of_SomeD)
  ultimately show "(a, b, v) \<in> set (directed m)"
    by (force simp add: directed_def)
qed

lemma entries_characterised:
  assumes "map_inv m" "symmetric m"
  shows "\<exists>es. entries m = Inr es \<and> distinct (map upair es) \<and>
     (\<forall>a b v. (((a, b), v) \<in> set es \<or> ((b, a), v) \<in> set es) = (get m a b = Some v))"
proof -
  define es where "es = dedup {} (directed m)"
  have sym: "get m a b = get m b a" for a b
    using assms(2) by (simp add: symmetric_def)
  have sound: "((a, b), v) \<in> set es \<Longrightarrow> get m a b = Some v" for a b v
    using dedup_sound [of "((a, b), v)" "{}" "directed m"] directed_iff [OF assms(1), of a b v]
    by (simp add: es_def)
  have "(((a, b), v) \<in> set es \<or> ((b, a), v) \<in> set es) = (get m a b = Some v)" for a b v
  proof
    assume "((a, b), v) \<in> set es \<or> ((b, a), v) \<in> set es"
    then show "get m a b = Some v" using sound [of a b v] sound [of b a v] sym [of a b] by auto
  next
    assume g: "get m a b = Some v"
    then have "(a, b, v) \<in> set (directed m)" by (simp add: directed_iff [OF assms(1)])
    from dedup_complete [OF this, of "{}"] obtain e where e: "e \<in> set es"
      and f: "fst e = (a, b) \<or> fst e = (b, a)" by (auto simp add: es_def)
    obtain v' where v': "e = (fst e, v')" by (cases e) auto
    from f show "((a, b), v) \<in> set es \<or> ((b, a), v) \<in> set es"
    proof
      assume "fst e = (a, b)"
      with e v' have "((a, b), v') \<in> set es" by simp
      with sound [of a b v'] g show ?thesis by auto
    next
      assume "fst e = (b, a)"
      with e v' have "((b, a), v') \<in> set es" by simp
      with sound [of b a v'] g sym [of a b] show ?thesis by auto
    qed
  qed
  then show ?thesis
    using entries_dedup [of m] dedup_distinct [of "{}" "directed m"]
    by (simp add: es_def)
qed

lemma has_getAllFrom_nonempty:
  assumes "map_inv m"
  shows "has m k = (\<exists>kmap. getAllFrom m k = Some kmap \<and> Map_size kmap \<noteq> 0)"
proof
  assume "has m k"
  then obtain kmap where k: "map_of m k = Some kmap" by (auto simp add: has_conv)
  with assms have "kmap \<noteq> []" by (simp add: map_inv_lookup)
  with k show "\<exists>kmap. getAllFrom m k = Some kmap \<and> Map_size kmap \<noteq> 0"
    by (simp add: getAllFrom_def Map_defs)
next
  assume "\<exists>kmap. getAllFrom m k = Some kmap \<and> Map_size kmap \<noteq> 0"
  then show "has m k" by (auto simp add: getAllFrom_def has_conv Map_defs)
qed

lemma has_some_couple:
  assumes "map_inv m" "has m k"
  shows "\<exists>b. hasCouple m k b"
proof -
  from assms(2) obtain kmap where k: "map_of m k = Some kmap" by (auto simp add: has_conv)
  with assms(1) have "kmap \<noteq> []" by (simp add: map_inv_lookup)
  then obtain b v rest where "kmap = (b, v) # rest" by (cases kmap) auto
  with k have "get m k b = Some v" by (simp add: get_conv)
  then show ?thesis by (auto simp add: hasCouple_conv)
qed

section \<open>Counting the yielded pairs\<close>

lemma card_pairs_le:
  assumes "finite K"
  shows "finite {{a, b} | a b. a \<in> K \<and> b \<in> K} \<and>
         card {{a, b} | a b. a \<in> K \<and> b \<in> K} \<le> card K * (card K + 1) div 2"
  using assms
proof (induction K rule: finite_induct)
  case empty
  show ?case by simp
next
  case (insert x K)
  let ?P = "{{a, b} | a b. a \<in> K \<and> b \<in> K}"
  let ?I = "(\<lambda>b. {x, b}) ` insert x K"
  have eq: "{{a, b} | a b. a \<in> insert x K \<and> b \<in> insert x K} = ?P \<union> ?I"
    by (auto simp add: insert_commute)
  from insert have fP: "finite ?P" and cP: "card ?P \<le> card K * (card K + 1) div 2"
    by blast+
  from insert have fI: "finite ?I" by simp
  have "card ?I \<le> card (insert x K)" using insert by (intro card_image_le) simp
  also have "\<dots> = card K + 1" using insert by simp
  finally have cI: "card ?I \<le> card K + 1" .
  have "card (?P \<union> ?I) \<le> card ?P + card ?I" by (rule card_Un_le)
  also have "\<dots> \<le> card K * (card K + 1) div 2 + (card K + 1)" using cP cI by simp
  also have "\<dots> = (card K + 1) * (card K + 1 + 1) div 2"
  proof -
    have "(card K + 1) * (card K + 1 + 1) = card K * (card K + 1) + (card K + 1) * 2"
      by (simp add: algebra_simps)
    then show ?thesis by simp
  qed
  finally have "card (?P \<union> ?I) \<le> (card K + 1) * (card K + 1 + 1) div 2" .
  moreover have "card (insert x K) = card K + 1" using insert by simp
  ultimately show ?case unfolding eq using fP fI by simp
qed

lemma count_conv: "count m = Inr (length (dedup {} (directed m)))"
  by (simp add: count_def values_rkm_def entries_dedup)

lemma yielded_pairs:
  assumes "map_inv m" "symmetric m" "entries m = Inr es"
  shows "upair ` set es = {{a, b} | a b. hasCouple m a b}"
proof -
  from entries_characterised [OF assms(1,2)] assms(3) have
    c: "(((a, b), v) \<in> set es \<or> ((b, a), v) \<in> set es) = (get m a b = Some v)" for a b v
    by auto
  show ?thesis
  proof (intro equalityI subsetI)
    fix u assume "u \<in> upair ` set es"
    then obtain a b v where e: "((a, b), v) \<in> set es" and u: "u = {a, b}"
      by (auto simp add: upair_def)
    from e c [of a b v] have "get m a b = Some v" by blast
    then have "hasCouple m a b" by (simp add: hasCouple_conv)
    with u show "u \<in> {{a, b} | a b. hasCouple m a b}" by blast
  next
    fix u assume "u \<in> {{a, b} | a b. hasCouple m a b}"
    then obtain a b where h: "hasCouple m a b" and u: "u = {a, b}" by blast
    from h obtain v where "get m a b = Some v" by (auto simp add: hasCouple_conv)
    with c [of a b v] have "((a, b), v) \<in> set es \<or> ((b, a), v) \<in> set es" by blast
    then show "u \<in> upair ` set es"
    proof
      assume "((a, b), v) \<in> set es"
      then have "upair ((a, b), v) \<in> upair ` set es" by (rule imageI)
      then show ?thesis by (simp add: upair_def u)
    next
      assume "((b, a), v) \<in> set es"
      then have "upair ((b, a), v) \<in> upair ` set es" by (rule imageI)
      then show ?thesis by (simp add: upair_def u insert_commute)
    qed
  qed
qed

lemma count_card:
  assumes "map_inv m" "symmetric m"
  shows "entries m = Inr (dedup {} (directed m)) \<and>
         count m = Inr (card {{a, b} | a b. hasCouple m a b})"
proof -
  have e: "entries m = Inr (dedup {} (directed m))" by (rule entries_dedup)
  have "distinct (map upair (dedup {} (directed m)))" by (rule dedup_distinct)
  then have "card (set (map upair (dedup {} (directed m)))) = length (dedup {} (directed m))"
    using distinct_card [of "map upair (dedup {} (directed m))"] by simp
  moreover have "set (map upair (dedup {} (directed m))) = {{a, b} | a b. hasCouple m a b}"
    using yielded_pairs [OF assms e] by simp
  ultimately show ?thesis using e by (simp add: count_conv)
qed

lemma couples_within_keys:
  assumes "symmetric m"
  shows "{{a, b} | a b. hasCouple m a b} \<subseteq> {{a, b} | a b. a \<in> set (keys m) \<and> b \<in> set (keys m)}"
proof
  fix u assume "u \<in> {{a, b} | a b. hasCouple m a b}"
  then obtain a b where h: "hasCouple m a b" and u: "u = {a, b}" by blast
  from h have g: "get m a b \<noteq> None" by (simp add: hasCouple_conv)
  with assms have g': "get m b a \<noteq> None" by (simp add: symmetric_def)
  have k: "get m x y \<noteq> None \<Longrightarrow> x \<in> set (keys m)" for x y
    by (auto simp add: get_conv keys_def split: option.splits dest: map_of_SomeD intro: rev_image_eqI)
  from k [OF g] k [OF g'] u
  show "u \<in> {{a, b} | a b. a \<in> set (keys m) \<and> b \<in> set (keys m)}" by blast
qed

section \<open>The loop of \<open>deleteAllFrom\<close>\<close>

lemma deleteAllFrom_loop_snapshot:
  "deleteAllFrom_loop k1 ks m = deleteAllFrom_snapshot_loop k1 ks m"
proof (induction ks arbitrary: m)
  case Nil
  show ?case by simp
next
  case (Cons key pending)
  show ?case
  proof (cases "hasCouple m k1 key")
    case True
    with Cons.IH show ?thesis by (simp split: sum.splits)
  next
    case False
    then have "delete m k1 key = Inr m" by (simp add: delete_def)
    with False Cons.IH show ?thesis by simp
  qed
qed

lemma deleteAllFrom_is_snapshot: "deleteAllFrom m k1 = deleteAllFrom_snapshot m k1"
  by (simp add: deleteAllFrom_def deleteAllFrom_snapshot_def deleteAllFrom_loop_snapshot
      has_def getAllFrom_def Map_defs split: option.splits)

lemma map_of_drop_half_other:
  "z \<noteq> x \<Longrightarrow> map_of (drop_half m x y xmap) z = map_of m z"
  by (simp add: drop_half_def Map_defs update_conv' delete_conv')

lemma delete_raises_only_self:
  assumes "symmetric m" "delete m k1 k2 = Inl (e, s)"
  shows "k1 = k2 \<and> map_of s k1 = None"
proof (cases rule: delete_cases [of m k1 k2])
  case absent
  with assms show ?thesis by simp
next
  case (removed k1map k2map)
  with assms show ?thesis by simp
next
  case (raised k1map)
  from raised(1) have "get m k1 k2 \<noteq> None" by (simp add: hasCouple_conv)
  with assms(1) have "get m k2 k1 \<noteq> None" by (simp add: symmetric_def)
  then have k2: "map_of m k2 \<noteq> None" by (auto simp add: get_conv split: option.splits)
  have "k1 = k2"
  proof (rule ccontr)
    assume "k1 \<noteq> k2"
    then have "map_of (drop_half m k1 k2 k1map) k2 = map_of m k2"
      by (simp add: map_of_drop_half_other)
    with raised(3) k2 show False by simp
  qed
  with raised assms show ?thesis by simp
qed

lemma deleteAllFrom_loop_post:
  assumes "symmetric m"
  shows "get (state_of (deleteAllFrom_loop k1 ks m)) k1 b \<noteq> None \<Longrightarrow>
         get m k1 b \<noteq> None \<and> b \<notin> set ks"
  using assms
proof (induction ks arbitrary: m)
  case Nil
  then show ?case by simp
next
  case (Cons key pending)
  show ?case
  proof (cases "hasCouple m k1 key")
    case False
    with Cons.prems have "get (state_of (deleteAllFrom_loop k1 pending m)) k1 b \<noteq> None" by simp
    from Cons.IH [OF this Cons.prems(2)] have 1: "get m k1 b \<noteq> None" and 2: "b \<notin> set pending"
      by blast+
    from False 1 have "b \<noteq> key" by (auto simp add: hasCouple_conv)
    with 1 2 show ?thesis by simp
  next
    case True
    show ?thesis
    proof (cases "delete m k1 key")
      case (Inl x)
      obtain e s where x: "x = (e, s)" by (cases x)
      from delete_raises_only_self [OF Cons.prems(2) Inl [unfolded x]]
      have "map_of s k1 = None" by blast
      then have "get s k1 b = None" by (simp add: get_conv)
      with Cons.prems(1) True Inl x show ?thesis by simp
    next
      case (Inr m')
      then have m': "m' = state_of (delete m k1 key)" by simp
      have s': "symmetric m'" unfolding m' using Cons.prems(2) by (rule symmetric_delete_rkm)
      from Cons.prems(1) True Inr
      have "get (state_of (deleteAllFrom_loop k1 pending m')) k1 b \<noteq> None" by simp
      from Cons.IH [OF this s'] have 1: "get m' k1 b \<noteq> None" and 2: "b \<notin> set pending"
        by blast+
      from 1 True have "b \<noteq> key \<and> get m k1 b \<noteq> None"
        unfolding m' get_delete by (cases "b = key") (auto split: if_splits)
      with 2 show ?thesis by simp
    qed
  qed
qed

lemma deleteAllFrom_leaves_no_pair:
  assumes "reachable m"
  shows "\<not> has (state_of (deleteAllFrom m k)) k \<and>
         get (state_of (deleteAllFrom m k)) k b = None \<and>
         get (state_of (deleteAllFrom m k)) b k = None"
proof -
  let ?m' = "state_of (deleteAllFrom m k)"
  from assms have sym: "symmetric m" by (simp add: reachable_inv)
  from assms have "reachable ?m'" by (rule r_deleteAllFrom)
  then have inv': "map_inv ?m'" and sym': "symmetric ?m'" by (simp_all add: reachable_inv)
  have none: "get ?m' k c = None" for c
  proof (cases "map_of m k")
    case None
    then show ?thesis by (simp add: deleteAllFrom_def has_conv get_conv)
  next
    case (Some kmap)
    show ?thesis
    proof (rule ccontr)
      assume "get ?m' k c \<noteq> None"
      with Some have "get (state_of (deleteAllFrom_loop k (map fst kmap) m)) k c \<noteq> None"
        by (simp add: deleteAllFrom_def has_conv getAllFrom_def Map_defs)
      from deleteAllFrom_loop_post [OF sym this]
      have 1: "get m k c \<noteq> None" and 2: "c \<notin> set (map fst kmap)" by blast+
      from 1 Some have "map_of kmap c \<noteq> None" by (simp add: get_conv)
      then have "c \<in> fst ` set kmap" by (simp add: map_of_eq_None_iff)
      with 2 show False by simp
    qed
  qed
  have "\<not> has ?m' k"
  proof
    assume "has ?m' k"
    from has_some_couple [OF inv' this] obtain c where "get ?m' k c \<noteq> None"
      by (auto simp add: hasCouple_conv)
    with none [of c] show False by simp
  qed
  moreover from sym' have "get ?m' b k = get ?m' k b" by (simp add: symmetric_def)
  ultimately show ?thesis using none [of b] by simp
qed

lemma deleteAllFrom_loop_returns:
  assumes "symmetric m" "\<not> hasCouple m k1 k1"
  shows "\<not> throws (deleteAllFrom_loop k1 ks m)"
  using assms
proof (induction ks arbitrary: m)
  case Nil
  show ?case by simp
next
  case (Cons key pending)
  show ?case
  proof (cases "hasCouple m k1 key")
    case False
    with Cons show ?thesis by simp
  next
    case True
    with Cons.prems(2) have ne: "k1 \<noteq> key" by auto
    show ?thesis
    proof (cases "delete m k1 key")
      case (Inl x)
      obtain e s where x: "x = (e, s)" by (cases x)
      from delete_raises_only_self [OF Cons.prems(1) Inl [unfolded x]] ne
      show ?thesis by simp
    next
      case (Inr m')
      then have m': "m' = state_of (delete m k1 key)" by simp
      have s': "symmetric m'" unfolding m' using Cons.prems(1) by (rule symmetric_delete_rkm)
      from Cons.prems(2) have "\<not> hasCouple m' k1 k1"
        unfolding m' hasCouple_conv get_delete by simp
      from Cons.IH [OF s' this] True Inr show ?thesis by simp
    qed
  qed
qed

lemma deleteAllFrom_returns:
  assumes "reachable m" "\<not> hasCouple m k k"
  shows "\<not> throws (deleteAllFrom m k)"
proof -
  from assms(1) have "symmetric m" by (simp add: reachable_inv)
  from deleteAllFrom_loop_returns [OF this assms(2)] show ?thesis
    by (simp add: deleteAllFrom_def has_conv getAllFrom_def Map_defs split: option.splits)
qed

section \<open>Round trip and frame of \<open>set\<close> and \<open>delete\<close>\<close>

text \<open>
  Claim C7. In any starting state, right after \<open>set(k1, k2, v)\<close> both \<open>get(k1, k2)\<close>
  and \<open>get(k2, k1)\<close> return \<open>v\<close>.
\<close>

theorem set_get_roundtrip:
  "get (set_rkm m k1 k2 v) k1 k2 = Some v \<and> get (set_rkm m k1 k2 v) k2 k1 = Some v"
  by (simp add: get_set_rkm)

text \<open>
  Claim C10. For an unordered pair \<open>{c, d}\<close> other than \<open>{k1, k2}\<close>, \<open>get(c, d)\<close> returns
  the same before and after \<open>set(k1, k2, v)\<close>, and the same before and after
  \<open>delete(k1, k2)\<close>, in any state; for \<open>delete\<close> the state after is the one the call
  leaves, whether it returns or raises.
\<close>

theorem frame_of_set_and_delete:
  assumes "{c, d} \<noteq> {k1, k2}"
  shows "get (set_rkm m k1 k2 v) c d = get m c d \<and>
         get (state_of (delete m k1 k2)) c d = get m c d"
proof -
  from assms have n1: "c \<noteq> k1 \<or> d \<noteq> k2" by blast
  from assms have n2: "c \<noteq> k2 \<or> d \<noteq> k1" by blast
  from n1 n2 show ?thesis
    unfolding get_set_rkm get_delete
    by (cases "c = k1"; cases "d = k2"; cases "c = k2"; cases "d = k1") auto
qed

theorem frame_of_set_and_delete_witness:
  "{''c'', ''d''} \<noteq> {''a'', ''b''} \<and>
   get (set_rkm (set_rkm (set_rkm [] ''a'' ''b'' (1::nat)) ''c'' ''d'' 2) ''a'' ''b'' 3) ''c'' ''d'' = Some 2 \<and>
   get (state_of (delete (set_rkm (set_rkm [] ''a'' ''b'' (1::nat)) ''c'' ''d'' 2) ''a'' ''b'')) ''c'' ''d'' = Some 2"
proof -
  have ne: "{''c'', ''d''} \<noteq> {''a'', ''b''}" by (simp add: doubleton_eq_iff)
  have g: "get (set_rkm (set_rkm [] ''a'' ''b'' (1::nat)) ''c'' ''d'' 2) ''c'' ''d'' = Some 2"
    by (simp add: get_conv set_rkm_def Map_defs)
  from frame_of_set_and_delete [OF ne, of "set_rkm (set_rkm [] ''a'' ''b'' (1::nat)) ''c'' ''d'' 2" 3] ne g
  show ?thesis by simp
qed

section \<open>The two invariants\<close>

text \<open>
  Claim C3. In every reachable state, when the primary index holds \<open>a \<rightarrow> (b \<rightarrow> v)\<close> it
  also holds \<open>b \<rightarrow> (a \<rightarrow> v)\<close>, and \<open>get(a, b)\<close> equals \<open>get(b, a)\<close>. The definition of
  \<open>get\<close> reads one direction only; the equality comes from what \<open>set\<close> and \<open>delete\<close>
  write.
\<close>

theorem symmetry_invariant:
  assumes "reachable m"
  shows "((\<exists>amap. getAllFrom m a = Some amap \<and> Map_get amap b = Some v) \<longrightarrow>
          (\<exists>bmap. getAllFrom m b = Some bmap \<and> Map_get bmap a = Some v)) \<and>
         get m a b = get m b a"
proof -
  from assms have "symmetric m" by (simp add: reachable_inv)
  then have s: "get m a b = get m b a" by (simp add: symmetric_def)
  have g: "(\<exists>xmap. getAllFrom m x = Some xmap \<and> Map_get xmap y = Some v) = (get m x y = Some v)"
    for x y
    by (auto simp add: getAllFrom_def Map_get_def get_conv split: option.splits)
  show ?thesis unfolding g using s by simp
qed

theorem symmetry_invariant_witness:
  "reachable (state_of (delete (set_rkm (set_rkm [] ''a'' ''b'' (1::nat)) ''c'' ''a'' 2) ''b'' ''a'')) \<and>
   getAllFrom (state_of (delete (set_rkm (set_rkm [] ''a'' ''b'' (1::nat)) ''c'' ''a'' 2) ''b'' ''a'')) ''a''
     = Some [(''c'', 2)] \<and>
   Map_get [(''c'', 2::nat)] ''c'' = Some 2 \<and>
   get (state_of (delete (set_rkm (set_rkm [] ''a'' ''b'' (1::nat)) ''c'' ''a'' 2) ''b'' ''a'')) ''c'' ''a''
     = Some 2"
proof -
  define M where "M = state_of (delete (set_rkm (set_rkm [] ''a'' ''b'' (1::nat)) ''c'' ''a'' 2) ''b'' ''a'')"
  have r: "reachable M"
    unfolding M_def by (intro reachable.intros)
  have e: "M = [(''a'', [(''c'', 2)]), (''c'', [(''a'', 2)])]"
    unfolding M_def by (simp add: delete_def set_rkm_def hasCouple_def Map_defs)
  have 1: "getAllFrom M ''a'' = Some [(''c'', 2)]"
    unfolding e by (simp add: getAllFrom_def Map_defs)
  have 2: "get M ''a'' ''c'' = Some 2"
    unfolding e by (simp add: get_conv)
  from symmetry_invariant [OF r, of "''a''" "''c''" 2] 1 2
  have "get M ''c'' ''a'' = Some 2" by simp
  with r 1 show ?thesis unfolding M_def by (simp add: Map_defs)
qed

text \<open>
  Claim C4. In every reachable state a key is a top-level entry exactly when its
  secondary map exists and is not empty; and when \<open>(k1, k2)\<close> is the only pair touching
  \<open>k1\<close>, \<open>has(k1)\<close> is false in the state that \<open>delete(k1, k2)\<close> leaves. With two
  different keys the call returns; with \<open>k1 = k2\<close> it can raise (claim C1), and the
  invariant still holds in the state it leaves.
\<close>

theorem no_orphan_invariant:
  assumes "reachable m"
  shows "(has m k \<longleftrightarrow> (\<exists>kmap. getAllFrom m k = Some kmap \<and> Map_size kmap \<noteq> 0)) \<and>
         (hasCouple m k1 k2 \<and> (\<forall>b. hasCouple m k1 b \<longrightarrow> b = k2) \<longrightarrow>
            \<not> has (state_of (delete m k1 k2)) k1) \<and>
         (k1 \<noteq> k2 \<longrightarrow> \<not> throws (delete m k1 k2))"
proof (intro conjI impI)
  from assms have "map_inv m" by (simp add: reachable_inv)
  then show "has m k \<longleftrightarrow> (\<exists>kmap. getAllFrom m k = Some kmap \<and> Map_size kmap \<noteq> 0)"
    by (rule has_getAllFrom_nonempty)
next
  assume last: "hasCouple m k1 k2 \<and> (\<forall>b. hasCouple m k1 b \<longrightarrow> b = k2)"
  then have hc: "hasCouple m k1 k2" and only: "\<And>b. hasCouple m k1 b \<Longrightarrow> b = k2"
    by blast+
  from assms have "reachable (state_of (delete m k1 k2))" by (rule r_delete)
  then have inv: "map_inv (state_of (delete m k1 k2))" by (simp add: reachable_inv)
  show "\<not> has (state_of (delete m k1 k2)) k1"
  proof
    assume "has (state_of (delete m k1 k2)) k1"
    from has_some_couple [OF inv this] obtain b
      where b: "get (state_of (delete m k1 k2)) k1 b \<noteq> None"
      by (auto simp add: hasCouple_conv)
    show False
    proof (cases "b = k2")
      case True
      with b hc show False unfolding get_delete by simp
    next
      case False
      with b have "get m k1 b \<noteq> None" unfolding get_delete by (auto split: if_splits)
      then have "hasCouple m k1 b" by (simp add: hasCouple_conv)
      from only [OF this] False show False by blast
    qed
  qed
next
  assume ne: "k1 \<noteq> k2"
  from assms have sym: "symmetric m" by (simp add: reachable_inv)
  show "\<not> throws (delete m k1 k2)"
  proof (cases "delete m k1 k2")
    case (Inl x)
    obtain e s where x: "x = (e, s)" by (cases x)
    from delete_raises_only_self [OF sym Inl [unfolded x]] ne show ?thesis by simp
  next
    case (Inr m')
    then show ?thesis by simp
  qed
qed

theorem no_orphan_invariant_witness:
  "reachable (set_rkm (set_rkm [] ''a'' ''b'' (1::nat)) ''b'' ''c'' 2) \<and>
   hasCouple (set_rkm (set_rkm [] ''a'' ''b'' (1::nat)) ''b'' ''c'' 2) ''a'' ''b'' \<and>
   has (set_rkm (set_rkm [] ''a'' ''b'' (1::nat)) ''b'' ''c'' 2) ''a'' \<and>
   getAllFrom (set_rkm (set_rkm [] ''a'' ''b'' (1::nat)) ''b'' ''c'' 2) ''a'' = Some [(''b'', 1)] \<and>
   \<not> has (state_of (delete (set_rkm (set_rkm [] ''a'' ''b'' (1::nat)) ''b'' ''c'' 2) ''a'' ''b'')) ''a'' \<and>
   ''a'' \<noteq> ''b'' \<and>
   \<not> throws (delete (set_rkm (set_rkm [] ''a'' ''b'' (1::nat)) ''b'' ''c'' 2) ''a'' ''b'')"
proof -
  define M where "M = set_rkm (set_rkm [] ''a'' ''b'' (1::nat)) ''b'' ''c'' 2"
  have r: "reachable M"
    unfolding M_def by (intro reachable.intros)
  have e: "M = [(''a'', [(''b'', 1)]), (''b'', [(''a'', 1), (''c'', 2)]), (''c'', [(''b'', 2)])]"
    unfolding M_def by (simp add: set_rkm_def Map_defs)
  have c: "hasCouple M ''a'' ''b''"
    unfolding e by (simp add: hasCouple_def Map_defs)
  have only: "\<forall>b. hasCouple M ''a'' b \<longrightarrow> b = ''b''"
    unfolding e by (simp add: hasCouple_def Map_defs)
  have g: "getAllFrom M ''a'' = Some [(''b'', 1)]"
    unfolding e by (simp add: getAllFrom_def Map_defs)
  from c only have hyp: "hasCouple M ''a'' ''b'' \<and> (\<forall>b. hasCouple M ''a'' b \<longrightarrow> b = ''b'')"
    by blast
  note t = no_orphan_invariant [OF r, of "''a''" "''a''" "''b''"]
  from t have "hasCouple M ''a'' ''b'' \<and> (\<forall>b. hasCouple M ''a'' b \<longrightarrow> b = ''b'') \<longrightarrow>
      \<not> has (state_of (delete M ''a'' ''b'')) ''a''"
    by blast
  from this hyp have 1: "\<not> has (state_of (delete M ''a'' ''b'')) ''a''" by (rule mp)
  have ne: "''a'' \<noteq> ''b''" by simp
  from t have "''a'' \<noteq> ''b'' \<longrightarrow> \<not> throws (delete M ''a'' ''b'')" by blast
  from this ne have 3: "\<not> throws (delete M ''a'' ''b'')" by (rule mp)
  from t have "has M ''a'' = (\<exists>kmap. getAllFrom M ''a'' = Some kmap \<and> Map_size kmap \<noteq> 0)"
    by (rule conjunct1)
  with g have 2: "has M ''a''" by (simp add: Map_defs)
  from r c g 1 2 3 show ?thesis unfolding M_def by simp
qed

section \<open>Size and iteration\<close>

text \<open>
  Claim C9. \<open>size\<close> is the number of distinct top-level keys: in a reachable state it
  is the number of keys \<open>k\<close> with \<open>has(k)\<close>; the empty map has size 0, one \<open>set\<close> with
  two distinct keys gives 2, one \<open>set(a, a, v)\<close> gives 1.
\<close>

theorem size_counts_keys:
  "(reachable m \<longrightarrow> size_rkm m = card {k. has m k}) \<and>
   size_rkm ([] :: ('k, 't) rkm) = 0 \<and>
   (a \<noteq> b \<longrightarrow> size_rkm (set_rkm ([] :: ('k, 't) rkm) a b v) = 2) \<and>
   size_rkm (set_rkm ([] :: ('k, 't) rkm) a a v) = 1"
proof (intro conjI impI)
  assume "reachable m"
  then have "distinct (map fst m)" using reachable_inv [of m] by (simp add: map_inv_def)
  then have "card (set (map fst m)) = length m" using distinct_card [of "map fst m"] by simp
  moreover have "{k. has m k} = set (map fst m)"
    by (auto simp add: has_conv map_of_eq_None_iff)
  ultimately show "size_rkm m = card {k. has m k}" by (simp add: size_rkm_def Map_defs)
qed (simp_all add: size_rkm_def set_rkm_def Map_defs)

theorem size_counts_keys_witness:
  "reachable (set_rkm (set_rkm [] ''a'' ''b'' (1::nat)) ''a'' ''c'' 2) \<and>
   size_rkm (set_rkm (set_rkm [] ''a'' ''b'' (1::nat)) ''a'' ''c'' 2) = 3 \<and>
   card {k. has (set_rkm (set_rkm [] ''a'' ''b'' (1::nat)) ''a'' ''c'' 2) k} = 3 \<and>
   ''a'' \<noteq> ''b'' \<and> size_rkm (set_rkm [] ''a'' ''b'' (1::nat)) = 2"
proof -
  have r: "reachable (set_rkm (set_rkm [] ''a'' ''b'' (1::nat)) ''a'' ''c'' 2)"
    by (intro reachable.intros)
  have n: "''a'' \<noteq> ''b''" by simp
  have s: "size_rkm (set_rkm (set_rkm [] ''a'' ''b'' (1::nat)) ''a'' ''c'' 2) = 3"
    by (simp add: size_rkm_def set_rkm_def Map_defs)
  from size_counts_keys [of "set_rkm (set_rkm [] ''a'' ''b'' (1::nat)) ''a'' ''c'' 2" "''a''" "''b''" "1::nat"]
    r n s show ?thesis by simp
qed

text \<open>
  Claim C5. In every reachable state \<open>entries()\<close> returns normally and yields each
  stored unordered pair exactly once, with its value: no two yielded items have the
  same unordered pair, and \<open>{a, b}\<close> is yielded with \<open>v\<close>, in one of its two orders,
  exactly when \<open>get(a, b)\<close> is \<open>v\<close>. After \<open>set("a","b",1)\<close> and \<open>set("c","d",2)\<close> the
  drained list has the two items, not four.
\<close>

theorem entries_deduplicated:
  assumes "reachable m"
  shows "(\<exists>es. entries m = Inr es \<and> distinct (map upair es) \<and>
            (\<forall>a b v. (((a, b), v) \<in> set es \<or> ((b, a), v) \<in> set es) = (get m a b = Some v))) \<and>
         entries (set_rkm (set_rkm [] ''a'' ''b'' (1::nat)) ''c'' ''d'' 2) =
           Inr [((''a'', ''b''), 1), ((''c'', ''d''), 2)]"
proof
  from assms have "map_inv m" "symmetric m" by (simp_all add: reachable_inv)
  then show "\<exists>es. entries m = Inr es \<and> distinct (map upair es) \<and>
            (\<forall>a b v. (((a, b), v) \<in> set es \<or> ((b, a), v) \<in> set es) = (get m a b = Some v))"
    by (rule entries_characterised)
next
  show "entries (set_rkm (set_rkm [] ''a'' ''b'' (1::nat)) ''c'' ''d'' 2) =
           Inr [((''a'', ''b''), 1), ((''c'', ''d''), 2)]"
    by (simp add: entries_def set_rkm_def Map_defs)
qed

theorem entries_deduplicated_witness:
  "reachable (set_rkm (set_rkm (set_rkm [] ''a'' ''b'' (1::nat)) ''b'' ''c'' 2) ''c'' ''c'' 3) \<and>
   entries (set_rkm (set_rkm (set_rkm [] ''a'' ''b'' (1::nat)) ''b'' ''c'' 2) ''c'' ''c'' 3) =
     Inr [((''a'', ''b''), 1), ((''b'', ''c''), 2), ((''c'', ''c''), 3)] \<and>
   distinct (map upair [((''a'', ''b''), 1::nat), ((''b'', ''c''), 2), ((''c'', ''c''), 3)]) \<and>
   get (set_rkm (set_rkm (set_rkm [] ''a'' ''b'' (1::nat)) ''b'' ''c'' 2) ''c'' ''c'' 3) ''c'' ''b'' = Some 2"
proof -
  define M where "M = set_rkm (set_rkm (set_rkm [] ''a'' ''b'' (1::nat)) ''b'' ''c'' 2) ''c'' ''c'' 3"
  have r: "reachable M"
    unfolding M_def by (intro reachable.intros)
  have e: "entries M = Inr [((''a'', ''b''), 1), ((''b'', ''c''), 2), ((''c'', ''c''), 3)]"
    unfolding M_def by (simp add: entries_def set_rkm_def Map_defs)
  from entries_deduplicated [OF r] obtain es where
    1: "entries M = Inr es" and 2: "distinct (map upair es)"
    and 3: "\<forall>a b v. (((a, b), v) \<in> set es \<or> ((b, a), v) \<in> set es) = (get M a b = Some v)"
    by blast
  from 1 e have es: "es = [((''a'', ''b''), 1), ((''b'', ''c''), 2), ((''c'', ''c''), 3)]" by simp
  from 3 have "(((''c'', ''b''), 2) \<in> set es \<or> ((''b'', ''c''), 2) \<in> set es) = (get M ''c'' ''b'' = Some 2)"
    by blast
  then have "get M ''c'' ''b'' = Some 2" unfolding es by simp
  with r e 2 show ?thesis unfolding es M_def by simp
qed

text \<open>
  Claim C2 says that \<open>count\<close> is the number of items that \<open>entries()\<close> yields and
  never exceeds \<open>size\<close>. The second half fails: four keys joined in all six ways
  give \<open>count = 6\<close> and \<open>size = 4\<close>.
\<close>

theorem count_le_size_counterexample:
  "reachable (set_rkm (set_rkm (set_rkm (set_rkm (set_rkm (set_rkm []
      ''a'' ''b'' (1::nat)) ''a'' ''c'' 2) ''a'' ''d'' 3) ''b'' ''c'' 4) ''b'' ''d'' 5) ''c'' ''d'' 6) \<and>
   count (set_rkm (set_rkm (set_rkm (set_rkm (set_rkm (set_rkm []
      ''a'' ''b'' (1::nat)) ''a'' ''c'' 2) ''a'' ''d'' 3) ''b'' ''c'' 4) ''b'' ''d'' 5) ''c'' ''d'' 6) = Inr 6 \<and>
   size_rkm (set_rkm (set_rkm (set_rkm (set_rkm (set_rkm (set_rkm []
      ''a'' ''b'' (1::nat)) ''a'' ''c'' 2) ''a'' ''d'' 3) ''b'' ''c'' 4) ''b'' ''d'' 5) ''c'' ''d'' 6) = 4 \<and>
   \<not> (6::nat) \<le> 4"
proof -
  have e: "set_rkm (set_rkm (set_rkm (set_rkm (set_rkm (set_rkm []
      ''a'' ''b'' (1::nat)) ''a'' ''c'' 2) ''a'' ''d'' 3) ''b'' ''c'' 4) ''b'' ''d'' 5) ''c'' ''d'' 6 =
    [(''a'', [(''b'', 1), (''c'', 2), (''d'', 3)]), (''b'', [(''a'', 1), (''c'', 4), (''d'', 5)]),
     (''c'', [(''a'', 2), (''b'', 4), (''d'', 6)]), (''d'', [(''a'', 3), (''b'', 5), (''c'', 6)])]"
    by (simp add: set_rkm_def Map_defs)
  have r: "reachable (set_rkm (set_rkm (set_rkm (set_rkm (set_rkm (set_rkm []
      ''a'' ''b'' (1::nat)) ''a'' ''c'' 2) ''a'' ''d'' 3) ''b'' ''c'' 4) ''b'' ''d'' 5) ''c'' ''d'' 6)"
    by (intro reachable.intros)
  have c: "count [(''a'', [(''b'', 1::nat), (''c'', 2), (''d'', 3)]), (''b'', [(''a'', 1), (''c'', 4), (''d'', 5)]),
     (''c'', [(''a'', 2), (''b'', 4), (''d'', 6)]), (''d'', [(''a'', 3), (''b'', 5), (''c'', 6)])] = Inr 6"
    by (simp add: count_def values_rkm_def entries_def)
  have s: "size_rkm [(''a'', [(''b'', 1::nat), (''c'', 2), (''d'', 3)]), (''b'', [(''a'', 1), (''c'', 4), (''d'', 5)]),
     (''c'', [(''a'', 2), (''b'', 4), (''d'', 6)]), (''d'', [(''a'', 3), (''b'', 5), (''c'', 6)])] = 4"
    by (simp add: size_rkm_def Map_defs)
  from r c s show ?thesis unfolding e by simp
qed

text \<open>
  Claim C2 as amended. In every reachable state \<open>entries()\<close> returns normally,
  \<open>count\<close> is the number of items it yields, that number is the number of distinct
  unordered pairs stored, and it is at most \<open>size * (size + 1) / 2\<close>.
\<close>

theorem count_is_number_of_pairs:
  assumes "reachable m"
  shows "\<exists>es. entries m = Inr es \<and> count m = Inr (length es) \<and>
           length es = card {{a, b} | a b. hasCouple m a b} \<and>
           length es \<le> size_rkm m * (size_rkm m + 1) div 2"
proof -
  from assms have inv: "map_inv m" and sym: "symmetric m" by (simp_all add: reachable_inv)
  from count_card [OF inv sym] have
    e: "entries m = Inr (dedup {} (directed m))" and
    c: "count m = Inr (card {{a, b} | a b. hasCouple m a b})" by blast+
  from c have l: "length (dedup {} (directed m)) = card {{a, b} | a b. hasCouple m a b}"
    by (simp add: count_conv)
  from inv have "distinct (keys m)" by (simp add: map_inv_def keys_def)
  then have k: "card (set (keys m)) = size_rkm m"
    using distinct_card [of "keys m"] by (simp add: keys_def size_rkm_def Map_defs)
  from card_pairs_le [of "set (keys m)"] have
    f: "finite {{a, b} | a b. a \<in> set (keys m) \<and> b \<in> set (keys m)}" and
    b: "card {{a, b} | a b. a \<in> set (keys m) \<and> b \<in> set (keys m)}
          \<le> size_rkm m * (size_rkm m + 1) div 2"
    unfolding k by simp_all
  from card_mono [OF f couples_within_keys [OF sym]] b
  have "card {{a, b} | a b. hasCouple m a b} \<le> size_rkm m * (size_rkm m + 1) div 2"
    by (rule order_trans)
  with e l show ?thesis by (simp add: count_conv)
qed

theorem count_is_number_of_pairs_witness:
  "reachable (set_rkm (set_rkm (set_rkm [] ''a'' ''b'' (1::nat)) ''b'' ''a'' 2) ''a'' ''a'' 3) \<and>
   entries (set_rkm (set_rkm (set_rkm [] ''a'' ''b'' (1::nat)) ''b'' ''a'' 2) ''a'' ''a'' 3)
     = Inr [((''a'', ''b''), 2), ((''a'', ''a''), 3)] \<and>
   count (set_rkm (set_rkm (set_rkm [] ''a'' ''b'' (1::nat)) ''b'' ''a'' 2) ''a'' ''a'' 3) = Inr 2 \<and>
   card {{a, b} | a b. hasCouple (set_rkm (set_rkm (set_rkm [] ''a'' ''b'' (1::nat)) ''b'' ''a'' 2) ''a'' ''a'' 3) a b} = 2 \<and>
   size_rkm (set_rkm (set_rkm (set_rkm [] ''a'' ''b'' (1::nat)) ''b'' ''a'' 2) ''a'' ''a'' 3) = 2"
proof -
  define M where "M = set_rkm (set_rkm (set_rkm [] ''a'' ''b'' (1::nat)) ''b'' ''a'' 2) ''a'' ''a'' 3"
  have r: "reachable M" unfolding M_def by (intro reachable.intros)
  have e: "entries M = Inr [((''a'', ''b''), 2), ((''a'', ''a''), 3)]"
    unfolding M_def by (simp add: entries_def set_rkm_def Map_defs)
  have s: "size_rkm M = 2"
    unfolding M_def by (simp add: size_rkm_def set_rkm_def Map_defs)
  from count_is_number_of_pairs [OF r] obtain es where
    1: "entries M = Inr es" and 2: "count M = Inr (length es)"
    and 3: "length es = card {{a, b} | a b. hasCouple M a b}" by blast
  from 1 e have "es = [((''a'', ''b''), 2), ((''a'', ''a''), 3)]" by simp
  then have "length es = 2" by simp
  with 2 3 r e s show ?thesis unfolding M_def by simp
qed

text \<open>
  Claim C8. Setting the same unordered pair again with the keys reversed overwrites
  the value in both directions, in any state, and adds no pair: in a reachable state
  \<open>count\<close> is what it was after the first \<open>set\<close>. From the empty map,
  \<open>set("a","b",1)\<close> then \<open>set("b","a",2)\<close> gives \<open>get("a","b") = 2\<close> and one pair.
\<close>

theorem reset_overwrites:
  "get (set_rkm (set_rkm m a b v1) b a v2) a b = Some v2 \<and>
   get (set_rkm (set_rkm m a b v1) b a v2) b a = Some v2 \<and>
   (reachable m \<longrightarrow> count (set_rkm (set_rkm m a b v1) b a v2) = count (set_rkm m a b v1)) \<and>
   get (set_rkm (set_rkm [] ''a'' ''b'' (1::nat)) ''b'' ''a'' 2) ''a'' ''b'' = Some 2 \<and>
   entries (set_rkm (set_rkm [] ''a'' ''b'' (1::nat)) ''b'' ''a'' 2) = Inr [((''a'', ''b''), 2)] \<and>
   count (set_rkm (set_rkm [] ''a'' ''b'' (1::nat)) ''b'' ''a'' 2) = Inr 1"
proof (intro conjI impI)
  assume "reachable m"
  then have r1: "reachable (set_rkm m a b v1)" by (rule r_set)
  then have r2: "reachable (set_rkm (set_rkm m a b v1) b a v2)" by (rule r_set)
  have h: "hasCouple (set_rkm (set_rkm m a b v1) b a v2) x y = hasCouple (set_rkm m a b v1) x y"
    for x y
    unfolding hasCouple_conv get_set_rkm
    by (cases "x = a"; cases "y = b"; cases "x = b"; cases "y = a") auto
  from r1 r2 have "count (set_rkm m a b v1) = Inr (card {{x, y} | x y. hasCouple (set_rkm m a b v1) x y})"
    "count (set_rkm (set_rkm m a b v1) b a v2) =
       Inr (card {{x, y} | x y. hasCouple (set_rkm (set_rkm m a b v1) b a v2) x y})"
    by (simp_all add: count_card reachable_inv)
  then show "count (set_rkm (set_rkm m a b v1) b a v2) = count (set_rkm m a b v1)"
    unfolding h by simp
next
  show "entries (set_rkm (set_rkm [] ''a'' ''b'' (1::nat)) ''b'' ''a'' 2) = Inr [((''a'', ''b''), 2)]"
    by (simp add: entries_def set_rkm_def Map_defs)
  then show "count (set_rkm (set_rkm [] ''a'' ''b'' (1::nat)) ''b'' ''a'' 2) = Inr 1"
    by (simp add: count_def values_rkm_def)
qed (simp_all add: get_set_rkm)

theorem reset_overwrites_witness:
  "reachable (set_rkm [] ''c'' ''d'' (7::nat)) \<and>
   get (set_rkm (set_rkm (set_rkm [] ''c'' ''d'' (7::nat)) ''a'' ''b'' 1) ''b'' ''a'' 2) ''a'' ''b'' = Some 2 \<and>
   count (set_rkm (set_rkm [] ''c'' ''d'' (7::nat)) ''a'' ''b'' 1) = Inr 2 \<and>
   count (set_rkm (set_rkm (set_rkm [] ''c'' ''d'' (7::nat)) ''a'' ''b'' 1) ''b'' ''a'' 2) = Inr 2"
proof -
  have r: "reachable (set_rkm [] ''c'' ''d'' (7::nat))" by (intro reachable.intros)
  have c: "count (set_rkm (set_rkm [] ''c'' ''d'' (7::nat)) ''a'' ''b'' 1) = Inr 2"
    by (simp add: count_def values_rkm_def entries_def set_rkm_def Map_defs)
  from reset_overwrites [of "set_rkm [] ''c'' ''d'' (7::nat)" "''a''" "''b''" 1 2] r c
  show ?thesis by simp
qed

section \<open>Deleting a key paired with itself\<close>

text \<open>
  Claim C1 says that no operation raises. \<open>delete(a, a)\<close> on the map that holds only
  the pair \<open>{a, a}\<close> does: the secondary map of \<open>a\<close> is emptied and \<open>a\<close> leaves
  \<open>this.map\<close>, then \<open>this.map.get(a)\<close> is \<open>undefined\<close> and \<open>k2map.delete\<close> raises
  \<open>TypeError\<close>.
\<close>

theorem delete_self_pair_raises:
  "delete (set_rkm [] a a v) a a = Inl (TypeError, []) \<and>
   throws (delete (set_rkm [] ''a'' ''a'' (1::nat)) ''a'' ''a'')"
  by (simp add: delete_def set_rkm_def hasCouple_def Map_defs)

text \<open>
  Claim C6 says that \<open>deleteAllFrom(k)\<close> removes every pair of \<open>k\<close>. When \<open>k\<close> is paired
  with itself and that pair is the last one the loop reaches, the call raises inside
  \<open>delete(k, k)\<close> instead of returning.
\<close>

theorem deleteAllFrom_self_pair_raises:
  "deleteAllFrom (set_rkm (set_rkm [] a b v) a a w) a = Inl (TypeError, []) \<and>
   throws (deleteAllFrom (set_rkm (set_rkm [] ''a'' ''b'' (1::nat)) ''a'' ''a'' 2) ''a'')"
  by (simp add: deleteAllFrom_def getAllFrom_def has_def delete_def set_rkm_def hasCouple_def Map_defs)

end
